theory Spec2Isabelle
  imports Complex_Main "HOL-Library.Product_Lexorder"
begin

section \<open>Python values used by the parsers\<close>

text \<open>
  Strings are modelled as \<^typ>\<open>string\<close>, one \<^typ>\<open>char\<close> per character: the model covers
  ASCII text, which is what PEST template and instruction files contain. Every exception
  the modelled code can raise is a value of \<open>py_error\<close>; a function that can raise returns
  \<open>py_error + 'a\<close>, with \<open>Inl\<close> for the exception.
\<close>

datatype py_error =
    AssertionError
  | IndexError
  | ValueError
  | KeyError
  | Exception py_error \<comment> \<open>\<open>raise Exception(... + str(e))\<close> wrapping a caught error\<close>

text \<open>\<open>str.lower()\<close> on ASCII: the 26 capital letters are mapped, every other character is kept.\<close>

definition lower_char :: "char \<Rightarrow> char" where
  "lower_char c =
     (case map_of (zip ''ABCDEFGHIJKLMNOPQRSTUVWXYZ'' ''abcdefghijklmnopqrstuvwxyz'') c of
        Some l \<Rightarrow> l
      | None \<Rightarrow> c)"

definition lower :: "string \<Rightarrow> string" where
  "lower s = map lower_char s"

text \<open>\<open>s[a:b]\<close> for non-negative \<open>a\<close> and \<open>b\<close>: both ends are clamped to the length.\<close>

definition slice :: "'a list \<Rightarrow> nat \<Rightarrow> nat \<Rightarrow> 'a list" where
  "slice s a b = take (b - a) (drop a s)"

text \<open>\<open>s.index(c)\<close> for a one-character \<open>c\<close>: the first position of \<open>c\<close>; \<open>None\<close> stands for
  the \<open>ValueError\<close> that Python raises when \<open>c\<close> does not occur.\<close>

fun str_index :: "'a list \<Rightarrow> 'a \<Rightarrow> nat option" where
  "str_index [] c = None"
| "str_index (x # xs) c = (if x = c then Some 0 else map_option Suc (str_index xs c))"

section \<open>The instruction mini-language scanner\<close>

definition istart_markers :: "char list" where
  "istart_markers = [CHR ''['', CHR ''('', CHR ''!'']"

definition iend_markers :: "char list" where
  "iend_markers = [CHR '']'', CHR '')'', CHR ''!'']"

text \<open>
  The \<open>while True\<close> loop of \<open>parse_ins_string\<close>, with the loop variables \<open>idx\<close> and
  \<open>obs_names\<close> as arguments. The test \<open>idx >= len(string) - 1\<close> is over Python's integers,
  where \<open>len(string) - 1\<close> is \<open>-1\<close> for the empty string. \<open>string[idx+1:].index(em)\<close>
  raises \<open>ValueError\<close> when \<open>em\<close> does not occur in the rest of the line.
\<close>

function parse_ins_loop :: "string \<Rightarrow> nat \<Rightarrow> string list \<Rightarrow> py_error + string list" where
  "parse_ins_loop string idx obs_names =
     (if int idx \<ge> int (length string) - 1 then Inr obs_names
      else
        let char = string ! idx in
        if char \<in> set istart_markers then
          (case str_index istart_markers char of
             None \<Rightarrow> Inl ValueError
           | Some m \<Rightarrow>
               let em = iend_markers ! m in
               (case str_index (drop (idx + 1) string) em of
                  None \<Rightarrow> Inl ValueError
                | Some k \<Rightarrow>
                    let eidx = min (length string) (k + idx + 1);
                        obs_name = slice string (idx + 1) eidx;
                        obs_names' = (if lower obs_name \<noteq> ''dum''
                                      then obs_names @ [obs_name] else obs_names)
                    in parse_ins_loop string (eidx + 1) obs_names'))
        else parse_ins_loop string (idx + 1) obs_names)"
  by pat_completeness auto
termination
  by (relation "measure (\<lambda>(string, idx, obs_names). length string - idx)") auto

declare parse_ins_loop.simps [simp del]

definition parse_ins_string :: "string \<Rightarrow> py_error + string list" where
  "parse_ins_string string = parse_ins_loop string 0 []"

text \<open>
  The scanning rule in the words of the specification, as a function of the part of the
  line that is still to be scanned: an opening marker that is not the final character
  opens a token, which is the text up to the first matching closing marker; the token is
  kept unless it is \<open>dum\<close> in any letter case; the scan resumes after the closing marker.
  \<open>None\<close> marks a line on which an opening marker has no closing marker after it.
\<close>

definition closer :: "char \<Rightarrow> char option" where
  "closer c =
     (if c = CHR ''['' then Some (CHR '']'')
      else if c = CHR ''('' then Some (CHR '')'')
      else if c = CHR ''!'' then Some (CHR ''!'')
      else None)"

function scan_spec :: "string \<Rightarrow> string list option" where
  "scan_spec [] = Some []"
| "scan_spec [c] = Some []"
| "scan_spec (c # d # cs) =
     (case closer c of
        None \<Rightarrow> scan_spec (d # cs)
      | Some em \<Rightarrow>
          if em \<in> set (d # cs) then
            (let token = takeWhile (\<lambda>x. x \<noteq> em) (d # cs);
                 rest = tl (dropWhile (\<lambda>x. x \<noteq> em) (d # cs))
             in map_option (\<lambda>ts. if lower token = ''dum'' then ts else token # ts)
                  (scan_spec rest))
          else None)"
  by pat_completeness auto
termination
proof (relation "measure length", goal_cases)
  case 1
  show ?case by simp
next
  case (2 c d cs)
  show ?case by simp
next
  case (3 c d cs em token rest)
  have "length (dropWhile (\<lambda>x. x \<noteq> em) (d # cs)) \<le> length (d # cs)"
    by (rule length_dropWhile_le)
  then have "length (tl (dropWhile (\<lambda>x. x \<noteq> em) (d # cs))) < length (c # d # cs)"
    by simp
  with 3 show ?case by simp
qed

section \<open>Template and instruction files\<close>

text \<open>
  A file is the list of its lines. \<open>f.readline()\<close> takes the first line and returns the
  empty string at the end of the file; \<open>for line in f\<close> runs over the lines that are left.
  White space is what \<open>str.strip()\<close> and \<open>str.split()\<close> remove among ASCII characters.
\<close>

definition readline :: "string list \<Rightarrow> string \<times> string list" where
  "readline f = (case f of [] \<Rightarrow> ([], []) | l # ls \<Rightarrow> (l, ls))"

definition is_space :: "char \<Rightarrow> bool" where
  "is_space c \<longleftrightarrow>
     c \<in> set [CHR 0x09, CHR 0x0A, CHR 0x0B, CHR 0x0C, CHR 0x0D,
              CHR 0x1C, CHR 0x1D, CHR 0x1E, CHR 0x1F, CHR 0x20]"

definition strip :: "string \<Rightarrow> string" where
  "strip s = rev (dropWhile is_space (rev (dropWhile is_space s)))"

text \<open>Splitting at every character that satisfies \<open>sep\<close>: \<open>n\<close> separators give \<open>n + 1\<close> pieces.\<close>

fun split_by :: "(char \<Rightarrow> bool) \<Rightarrow> string \<Rightarrow> string list" where
  "split_by sep [] = [[]]"
| "split_by sep (x # xs) =
     (if sep x then [] # split_by sep xs
      else (case split_by sep xs of
              [] \<Rightarrow> [[x]]
            | w # ws \<Rightarrow> (x # w) # ws))"

text \<open>\<open>s.split(marker)\<close> for a one-character marker, and \<open>s.split()\<close>, which splits at runs
  of white space and returns no empty piece.\<close>

definition split_on :: "char \<Rightarrow> string \<Rightarrow> string list" where
  "split_on marker s = split_by (\<lambda>x. x = marker) s"

definition split_ws :: "string \<Rightarrow> string list" where
  "split_ws s = filter (\<lambda>w. w \<noteq> []) (split_by is_space s)"

text \<open>The slices \<open>xs[::2]\<close> and \<open>xs[1::2]\<close>.\<close>

fun evens :: "'a list \<Rightarrow> 'a list" where
  "evens [] = []"
| "evens [x] = [x]"
| "evens (x # y # zs) = x # evens zs"

fun odds :: "'a list \<Rightarrow> 'a list" where
  "odds [] = []"
| "odds [x] = []"
| "odds (x # y # zs) = y # odds zs"

subsection \<open>\<open>parse_tpl_file\<close>\<close>

text \<open>The inner loop \<open>for p in par_line: if p not in par_names: par_names.append(p)\<close>.\<close>

fun append_new :: "string list \<Rightarrow> string list \<Rightarrow> string list" where
  "append_new par_names [] = par_names"
| "append_new par_names (p # par_line) =
     append_new (if p \<notin> set par_names then par_names @ [p] else par_names) par_line"

text \<open>The loop \<open>for line in f\<close> of \<open>parse_tpl_file\<close>.\<close>

fun tpl_lines :: "char \<Rightarrow> string list \<Rightarrow> string list \<Rightarrow> string list" where
  "tpl_lines marker par_names [] = par_names"
| "tpl_lines marker par_names (line # f) =
     tpl_lines marker (append_new par_names (odds (split_on marker (strip line)))) f"

text \<open>The body of the \<open>try\<close> block: \<open>header[0]\<close> raises \<open>IndexError\<close> on a header without
  tokens, and the three assertions follow in the order of the source.\<close>

definition tpl_try :: "string list \<Rightarrow> py_error + string list" where
  "tpl_try f =
     (let (first, rest) = readline f;
          header = split_ws (strip first)
      in if header = [] then Inl IndexError
         else if lower (header ! 0) \<notin> set [''ptf'', ''jtf''] then Inl AssertionError
         else if length header \<noteq> 2 then Inl AssertionError
         else
           let marker = header ! 1 in
           if length marker \<noteq> 1 then Inl AssertionError
           else Inr (tpl_lines (marker ! 0) [] rest))"

definition parse_tpl_file :: "string list \<Rightarrow> py_error + string list" where
  "parse_tpl_file tpl_file =
     (case tpl_try tpl_file of
        Inl e \<Rightarrow> Inl (Exception e)
      | Inr par_names \<Rightarrow> Inr (map (\<lambda>pn. lower (strip pn)) par_names))"

subsection \<open>\<open>parse_ins_file\<close>\<close>

text \<open>The loop \<open>for item in ...: obs_names.extend(parse_ins_string(item))\<close>; an error of the
  scanner leaves the loop.\<close>

fun extend_items :: "string list \<Rightarrow> string list \<Rightarrow> py_error + string list" where
  "extend_items obs_names [] = Inr obs_names"
| "extend_items obs_names (item # items) =
     (case parse_ins_string item of
        Inl e \<Rightarrow> Inl e
      | Inr names \<Rightarrow> extend_items (obs_names @ names) items)"

fun ins_lines :: "char \<Rightarrow> string list \<Rightarrow> string list \<Rightarrow> py_error + string list" where
  "ins_lines marker obs_names [] = Inr obs_names"
| "ins_lines marker obs_names (line # f) =
     (case (if marker \<in> set line
            then extend_items obs_names (evens (split_on marker (strip line)))
            else extend_items obs_names [strip line]) of
        Inl e \<Rightarrow> Inl e
      | Inr obs_names' \<Rightarrow> ins_lines marker obs_names' f)"

text \<open>There is no \<open>try\<close> block and no assertion on the number of header tokens here:
  \<open>header[0]\<close> and \<open>header[1]\<close> raise \<open>IndexError\<close> when the token is missing.\<close>

definition parse_ins_file :: "string list \<Rightarrow> py_error + string list" where
  "parse_ins_file ins_file =
     (let (first, rest) = readline ins_file;
          header = split_ws (strip first)
      in if header = [] then Inl IndexError
         else if lower (header ! 0) \<notin> set [''pif'', ''jif''] then Inl AssertionError
         else if length header < 2 then Inl IndexError
         else
           let marker = header ! 1 in
           if length marker \<noteq> 1 then Inl AssertionError
           else (case ins_lines (marker ! 0) [] rest of
                   Inl e \<Rightarrow> Inl e
                 | Inr obs_names \<Rightarrow> Inr (map (\<lambda>nm. lower (strip nm)) obs_names)))"

section \<open>The Monte Carlo engine\<close>

subsection \<open>\<open>get_nsing\<close>\<close>

text \<open>
  The singular values \<open>self.xtqx.s.x[:,0]\<close> are a list of finite float64 numbers, each of
  which is a real number, and so is \<open>epsilon\<close>; \<open>self.xtqx.shape[0]\<close> is the length of the
  list, since \<open>xtqx\<close> is a square matrix. \<open>x.max()\<close> is a reduction with \<open>max\<close> from the
  first element and raises \<open>ValueError\<close> on an empty array.
\<close>

definition array_max :: "real list \<Rightarrow> py_error + real" where
  "array_max a = (case a of [] \<Rightarrow> Inl ValueError | x # xs \<Rightarrow> Inr (fold max xs x))"

text \<open>
  A quotient of two float64 numbers is a float64 value: a finite number, an infinity or
  NaN. Division by a number other than zero gives the exact quotient rounded to float64;
  the rounding \<open>rnd\<close> is a parameter of the model. Division by zero gives NaN for
  \<open>0 / 0\<close> and an infinity with the sign of the dividend otherwise (zero is \<open>+0.0\<close>).
\<close>

datatype float64 = NegInf | Finite real | PosInf | NaN

definition np_divide :: "(real \<Rightarrow> float64) \<Rightarrow> real \<Rightarrow> real \<Rightarrow> float64" where
  "np_divide rnd x y =
     (if y \<noteq> 0 then rnd (x / y)
      else if x = 0 then NaN
      else if x < 0 then NegInf
      else PosInf)"

text \<open>
  The order in which numpy sorts and searches float64 values: minus infinity, the finite
  numbers by their value, plus infinity, and NaN after every other value. \<open>np.sort\<close>
  returns the values in this order, and the comparison of \<open>np.searchsorted\<close> is the strict
  order, so that NaN is less than no value.
\<close>

fun np_key :: "float64 \<Rightarrow> nat \<times> real" where
  "np_key NegInf = (0, 0)"
| "np_key (Finite x) = (1, x)"
| "np_key PosInf = (2, 0)"
| "np_key NaN = (3, 0)"

definition np_less :: "float64 \<Rightarrow> float64 \<Rightarrow> bool" where
  "np_less a b \<longleftrightarrow> np_key a < np_key b"

definition np_sort :: "float64 list \<Rightarrow> float64 list" where
  "np_sort a = sort_key np_key a"

text \<open>
  \<open>np.searchsorted(a, v)\<close> with the default \<open>side='left'\<close> is numpy's binary search: the
  interval \<open>[lo, hi)\<close> is halved until it is empty, going right when the middle element
  is less than \<open>v\<close>.
\<close>

function searchsorted_loop :: "float64 list \<Rightarrow> float64 \<Rightarrow> nat \<Rightarrow> nat \<Rightarrow> nat" where
  "searchsorted_loop a v lo hi =
     (if lo < hi then
        let mid = lo + (hi - lo) div 2 in
        if np_less (a ! mid) v then searchsorted_loop a v (mid + 1) hi
        else searchsorted_loop a v lo mid
      else lo)"
  by pat_completeness auto
termination
  by (relation "measure (\<lambda>(a, v, lo, hi). hi - lo)") auto

declare searchsorted_loop.simps [simp del]

definition searchsorted :: "float64 list \<Rightarrow> float64 \<Rightarrow> nat" where
  "searchsorted a v = searchsorted_loop a v 0 (length a)"

definition get_nsing :: "(real \<Rightarrow> float64) \<Rightarrow> real list \<Rightarrow> real \<Rightarrow> py_error + int" where
  "get_nsing rnd s epsilon =
     (case array_max s of
        Inl e \<Rightarrow> Inl e
      | Inr m \<Rightarrow>
          Inr (int (length s)
               - int (searchsorted (np_sort (map (\<lambda>x. np_divide rnd x m) s))
                        (Finite epsilon))))"

subsection \<open>\<open>get_null_proj\<close>\<close>

text \<open>
  Modelled from the spec: the matrix type of \<open>pyemu.mat\<close>, which \<open>get_null_proj\<close> uses
  through \<open>v[:,nsing:]\<close>, \<open>.T\<close> and \<open>*\<close>. A matrix has a shape and its entries row by row;
  the column slice keeps the columns with index at least \<open>nsing\<close> (a negative \<open>nsing\<close>
  counts from the last column, as Python slices do), \<open>.T\<close> is the transpose and \<open>*\<close> the
  matrix product, which raises on operands whose shapes do not fit.
\<close>

record matrix =
  nrow :: nat
  ncol :: nat
  entries :: "real list list"

definition slice_start :: "nat \<Rightarrow> int \<Rightarrow> nat" where
  "slice_start n k = (if k < 0 then nat (max 0 (int n + k)) else min (nat k) n)"

definition cols_from :: "matrix \<Rightarrow> int \<Rightarrow> matrix" where
  "cols_from m k =
     \<lparr>nrow = nrow m,
      ncol = ncol m - slice_start (ncol m) k,
      entries = map (drop (slice_start (ncol m) k)) (entries m)\<rparr>"

definition transpose_matrix :: "matrix \<Rightarrow> matrix" where
  "transpose_matrix m =
     \<lparr>nrow = ncol m,
      ncol = nrow m,
      entries = map (\<lambda>j. map (\<lambda>r. r ! j) (entries m)) [0..<ncol m]\<rparr>"

definition mult_matrix :: "matrix \<Rightarrow> matrix \<Rightarrow> py_error + matrix" where
  "mult_matrix a b =
     (if ncol a \<noteq> nrow b then Inl AssertionError
      else Inr \<lparr>nrow = nrow a,
                ncol = ncol b,
                entries =
                  map (\<lambda>r. map (\<lambda>j. \<Sum>l\<leftarrow>[0..<ncol a]. r ! l * (entries b ! l ! j))
                             [0..<ncol b])
                      (entries a)\<rparr>)"

text \<open>The decomposition of \<open>xtqx\<close>: its singular values \<open>xtqx.s\<close> and its right singular
  vectors \<open>xtqx.v\<close>.\<close>

record xtqx =
  xtqx_s :: "real list"
  xtqx_v :: matrix

text \<open>\<open>get_null_proj\<close>; the two calls of \<open>self.log\<close> have no effect on the result. The
  rounding \<open>rnd\<close> is the parameter of \<open>get_nsing\<close>.\<close>

definition get_null_proj :: "(real \<Rightarrow> float64) \<Rightarrow> xtqx \<Rightarrow> int option \<Rightarrow> py_error + matrix" where
  "get_null_proj rnd q nsing =
     (case (case nsing of None \<Rightarrow> get_nsing rnd (xtqx_s q) (1 / 10 ^ 6) | Some n \<Rightarrow> Inr n) of
        Inl e \<Rightarrow> Inl e
      | Inr n \<Rightarrow> mult_matrix (cols_from (xtqx_v q) n) (transpose_matrix (cols_from (xtqx_v q) n)))"

subsection \<open>\<open>write_psts\<close>\<close>

text \<open>
  Modelled from the spec: the control file and the ensembles, which are classes of
  \<open>pyemu\<close> outside these sources. A control file holds a table of parameters (name and
  \<open>parval1\<close>) and a table of observations (name and \<open>obsval\<close>), each indexed by the name.
  An ensemble is a table with named columns and one row for each realization; the
  parameter ensemble carries the flag \<open>islog\<close>. The values are of any type \<open>'v\<close>: no
  arithmetic is done on them here. The inverse log transform of \<open>_back_transform\<close> is a
  parameter \<open>inv_log\<close> of the model, applied to every value with the name of its column.
\<close>

record 'v pst =
  parameter_data :: "(string \<times> 'v) list"
  observation_data :: "(string \<times> 'v) list"

record 'v ensemble =
  columns :: "string list"
  realizations :: "'v list list"
  islog :: bool

record 'v monte_carlo =
  mc_pst :: "'v pst"
  parensemble :: "'v ensemble"
  obsensemble :: "'v ensemble"

text \<open>\<open>en.shape[0]\<close>, the property \<open>num_reals\<close>, and \<open>en.iloc[i, :]\<close>, the row \<open>i\<close> as a series
  of values labelled by the columns.\<close>

definition shape0 :: "'v ensemble \<Rightarrow> nat" where
  "shape0 en = length (realizations en)"

definition num_reals :: "'v monte_carlo \<Rightarrow> nat" where
  "num_reals mc = shape0 (parensemble mc)"

definition iloc :: "'v ensemble \<Rightarrow> nat \<Rightarrow> py_error + (string \<times> 'v) list" where
  "iloc en i =
     (if i < shape0 en then Inr (zip (columns en) (realizations en ! i)) else Inl IndexError)"

definition back_transform :: "(string \<Rightarrow> 'v \<Rightarrow> 'v) \<Rightarrow> 'v ensemble \<Rightarrow> 'v ensemble" where
  "back_transform inv_log en =
     en\<lparr>realizations := map (\<lambda>r. map (\<lambda>(c, x). inv_log c x) (zip (columns en) r))
                              (realizations en),
        islog := False\<rparr>"

text \<open>\<open>table.loc[labels, column] = series\<close>: every label must be in the index of the table
  (\<open>KeyError\<close> otherwise), and the row of each label takes the value the series has for
  that label.\<close>

definition set_value :: "string \<Rightarrow> 'v \<Rightarrow> (string \<times> 'v) list \<Rightarrow> (string \<times> 'v) list" where
  "set_value k x tbl = map (\<lambda>(n, w). if n = k then (n, x) else (n, w)) tbl"

fun loc_assign :: "(string \<times> 'v) list \<Rightarrow> (string \<times> 'v) list \<Rightarrow> py_error + (string \<times> 'v) list" where
  "loc_assign tbl [] = Inr tbl"
| "loc_assign tbl ((label, x) # series) =
     (if label \<in> fst ` set tbl then loc_assign (set_value label x tbl) series
      else Inl KeyError)"

text \<open>\<open>"{0:d}".format(i)\<close> for a natural number: its decimal digits.\<close>

definition digit :: "nat \<Rightarrow> char" where
  "digit n = ''0123456789'' ! n"

function format_d :: "nat \<Rightarrow> string" where
  "format_d n = (if n < 10 then [digit n] else format_d (n div 10) @ [digit (n mod 10)])"
  by pat_completeness auto
termination
  by (relation "measure id") auto

declare format_d.simps [simp del]

text \<open>
  The loop \<open>for i in range(self.num_reals)\<close>. The copy \<open>pst\<close> of the control file is
  updated in place from one pass to the next; \<open>pst.write(pst_name)\<close> adds the file
  \<open>pst_name\<close>, with the control file as it is then, to the files written. The result is
  the files written and the error that ended the loop, if any.
\<close>

fun write_loop ::
  "'v monte_carlo \<Rightarrow> 'v ensemble \<Rightarrow> string \<Rightarrow> nat list \<Rightarrow> 'v pst \<Rightarrow> (string \<times> 'v pst) list
     \<Rightarrow> (string \<times> 'v pst) list \<times> py_error option" where
  "write_loop mc par_en prefix [] pst files = (files, None)"
| "write_loop mc par_en prefix (i # rest) pst files =
     (let pst_name = prefix @ format_d i @ ''.pst'' in
      case iloc par_en i of
        Inl e \<Rightarrow> (files, Some e)
      | Inr par_row \<Rightarrow>
          (case loc_assign (parameter_data pst) par_row of
             Inl e \<Rightarrow> (files, Some e)
           | Inr pd \<Rightarrow>
               (case (if shape0 (obsensemble mc) = num_reals mc
                      then (case iloc (obsensemble mc) i of
                              Inl e \<Rightarrow> Inl e
                            | Inr obs_row \<Rightarrow> loc_assign (observation_data pst) obs_row)
                      else Inr (observation_data pst)) of
                  Inl e \<Rightarrow> (files, Some e)
                | Inr od \<Rightarrow>
                    (let pst' = pst\<lparr>parameter_data := pd, observation_data := od\<rparr>
                     in write_loop mc par_en prefix rest pst' (files @ [(pst_name, pst')])))))"

definition write_psts ::
  "(string \<Rightarrow> 'v \<Rightarrow> 'v) \<Rightarrow> 'v monte_carlo \<Rightarrow> string \<Rightarrow> (string \<times> 'v pst) list \<times> py_error option" where
  "write_psts inv_log mc prefix =
     (let pst = mc_pst mc;
          par_en = (if islog (parensemble mc) then back_transform inv_log (parensemble mc)
                    else parensemble mc)
      in write_loop mc par_en prefix [0..<num_reals mc] pst [])"

subsection \<open>Predicates used in the statements\<close>

text \<open>A matrix is well formed when it has as many rows as its shape says, each with one
  entry for every column; the zero matrix of a shape.\<close>

definition wf_matrix :: "matrix \<Rightarrow> bool" where
  "wf_matrix m \<longleftrightarrow> length (entries m) = nrow m \<and> (\<forall>r\<in>set (entries m). length r = ncol m)"

definition zero_matrix :: "nat \<Rightarrow> nat \<Rightarrow> matrix" where
  "zero_matrix n k = \<lparr>nrow = n, ncol = k, entries = replicate n (replicate k 0)\<rparr>"

text \<open>The comparison \<open>r >= e\<close> of a float64 value with a finite number: it is false for
  NaN.\<close>

definition ratio_ge :: "float64 \<Rightarrow> real \<Rightarrow> bool" where
  "ratio_ge r e =
     (case r of Finite y \<Rightarrow> e \<le> y | PosInf \<Rightarrow> True | NegInf \<Rightarrow> False | NaN \<Rightarrow> False)"

text \<open>An ensemble fits a table of a control file when its rows have one value for each
  column, its column names are distinct and each of them is a name of the table. A table
  holds a row when it gives the name of every column the value the row has there.\<close>

definition wf_ensemble :: "'v ensemble \<Rightarrow> (string \<times> 'v) list \<Rightarrow> bool" where
  "wf_ensemble en tbl \<longleftrightarrow>
     (\<forall>r\<in>set (realizations en). length r = length (columns en))
     \<and> distinct (columns en)
     \<and> set (columns en) \<subseteq> fst ` set tbl"

definition holds_row :: "(string \<times> 'v) list \<Rightarrow> string list \<Rightarrow> 'v list \<Rightarrow> bool" where
  "holds_row tbl cols row \<longleftrightarrow> (\<forall>j<length cols. map_of tbl (cols ! j) = Some (row ! j))"

section \<open>Properties of the scanner\<close>

lemmas scanner_defs =
  parse_ins_string_def parse_ins_loop.simps istart_markers_def iend_markers_def
  slice_def lower_def lower_char_def

lemma str_index_None: "str_index xs c = None \<longleftrightarrow> c \<notin> set xs"
  by (induction xs) auto

lemma str_index_Some:
  "str_index xs c = Some k \<Longrightarrow>
     k < length xs \<and> take k xs = takeWhile (\<lambda>x. x \<noteq> c) xs
     \<and> drop (Suc k) xs = tl (dropWhile (\<lambda>x. x \<noteq> c) xs)"
  by (induction xs arbitrary: k) (auto split: if_splits)

lemma marker_pairs:
  "c \<in> set istart_markers \<Longrightarrow>
     \<exists>m em. str_index istart_markers c = Some m \<and> iend_markers ! m = em \<and> closer c = Some em"
  by (auto simp: istart_markers_def iend_markers_def closer_def)

lemma not_marker: "c \<notin> set istart_markers \<Longrightarrow> closer c = None"
  by (auto simp: istart_markers_def closer_def)

lemma closer_zip:
  "(a, b) \<in> set (zip istart_markers iend_markers) \<Longrightarrow> closer a = Some b"
  by (auto simp: istart_markers_def iend_markers_def closer_def)

lemma scan_spec_plain:
  "closer c = None \<Longrightarrow> xs \<noteq> [] \<Longrightarrow> scan_spec (c # xs) = scan_spec xs"
  by (cases xs) simp_all

lemma scan_spec_unclosed:
  "closer c = Some em \<Longrightarrow> xs \<noteq> [] \<Longrightarrow> em \<notin> set xs \<Longrightarrow> scan_spec (c # xs) = None"
  by (cases xs) simp_all

lemma scan_spec_token:
  "closer c = Some em \<Longrightarrow> em \<in> set xs \<Longrightarrow>
     scan_spec (c # xs) =
       map_option
         (\<lambda>ts. if lower (takeWhile (\<lambda>x. x \<noteq> em) xs) = ''dum'' then ts
               else takeWhile (\<lambda>x. x \<noteq> em) xs # ts)
         (scan_spec (tl (dropWhile (\<lambda>x. x \<noteq> em) xs)))"
proof (cases xs)
  case Nil
  assume "em \<in> set xs"
  with Nil show ?thesis by simp
next
  case (Cons d cs)
  assume "closer c = Some em" and "em \<in> set xs"
  then show ?thesis unfolding Cons by (simp add: Let_def cong: if_cong)
qed

lemma scan_spec_short: "length xs \<le> 1 \<Longrightarrow> scan_spec xs = Some []"
  by (cases xs rule: scan_spec.cases) simp_all

text \<open>The loop at position \<open>idx\<close> does what the rule does on the rest of the line from
  \<open>idx\<close>, and raises \<open>ValueError\<close> exactly where the rule meets an unclosed marker.\<close>

lemma parse_ins_loop_scan_spec:
  "parse_ins_loop s idx acc =
     (case scan_spec (drop idx s) of Some ts \<Rightarrow> Inr (acc @ ts) | None \<Rightarrow> Inl ValueError)"
proof (induction s idx acc rule: parse_ins_loop.induct)
  case (1 s idx acc)
  show ?case
  proof (cases "Suc idx < length s")
    case False
    then have "int idx \<ge> int (length s) - 1" by simp
    then have "parse_ins_loop s idx acc = Inr acc"
      by (subst parse_ins_loop.simps) simp
    moreover have "scan_spec (drop idx s) = Some []"
      using False by (intro scan_spec_short) simp
    ultimately show ?thesis by simp
  next
    case True
    then have ge: "\<not> int idx \<ge> int (length s) - 1" by simp
    define xs where "xs = drop (idx + 1) s"
    have d0: "drop idx s = s ! idx # xs"
      using True by (simp add: xs_def Cons_nth_drop_Suc)
    have ne: "xs \<noteq> []" using True by (simp add: xs_def)
    show ?thesis
    proof (cases "s ! idx \<in> set istart_markers")
      case False
      then have "parse_ins_loop s idx acc = parse_ins_loop s (idx + 1) acc"
        using ge by (subst parse_ins_loop.simps) simp
      also have "\<dots> = (case scan_spec xs of
                         Some ts \<Rightarrow> Inr (acc @ ts) | None \<Rightarrow> Inl ValueError)"
        unfolding xs_def using "1.IH"(2) [OF ge refl False] .
      finally show ?thesis
        unfolding d0 scan_spec_plain [OF not_marker [OF False] ne] .
    next
      case mk: True
      from marker_pairs [OF mk] obtain m em where
        m: "str_index istart_markers (s ! idx) = Some m" and em: "iend_markers ! m = em"
        and cl: "closer (s ! idx) = Some em" by blast
      show ?thesis
      proof (cases "str_index xs em")
        case None
        then have "parse_ins_loop s idx acc = Inl ValueError"
          using ge mk m em by (subst parse_ins_loop.simps) (simp add: xs_def)
        moreover have "em \<notin> set xs"
          by (rule iffD1 [OF str_index_None None])
        ultimately show ?thesis
          unfolding d0 scan_spec_unclosed [OF cl ne \<open>em \<notin> set xs\<close>] by simp
      next
        case (Some k)
        define tok where "tok = takeWhile (\<lambda>x. x \<noteq> em) xs"
        define acc' where "acc' = (if lower tok \<noteq> ''dum'' then acc @ [tok] else acc)"
        from str_index_Some [OF Some] have
          k: "k < length xs"
          and tk: "take k xs = tok"
          and dr: "drop (Suc k) xs = tl (dropWhile (\<lambda>x. x \<noteq> em) xs)"
          by (simp_all add: tok_def)
        have eidx: "min (length s) (k + idx + 1) = k + idx + 1"
          using k by (simp add: xs_def)
        have sl: "slice s (idx + 1) (k + idx + 1) = tok"
          using tk by (simp add: slice_def xs_def)
        have step: "parse_ins_loop s idx acc = parse_ins_loop s (k + idx + 1 + 1) acc'"
          using ge mk m em Some eidx sl
          by (subst parse_ins_loop.simps) (simp add: acc'_def Let_def xs_def)
        have ih: "parse_ins_loop s (k + idx + 1 + 1) acc' =
            (case scan_spec (drop (k + idx + 1 + 1) s) of
               Some ts \<Rightarrow> Inr (acc' @ ts) | None \<Rightarrow> Inl ValueError)"
          using "1.IH"(1) [OF ge refl mk m refl Some [unfolded xs_def, folded em] refl refl refl]
          unfolding eidx sl acc'_def .
        have mem: "em \<in> set xs"
          using Some iffD2 [OF str_index_None, of em xs] by fastforce
        have dr': "drop (k + idx + 1 + 1) s = tl (dropWhile (\<lambda>x. x \<noteq> em) xs)"
          using dr by (simp add: xs_def add.commute add.left_commute)
        show ?thesis
          unfolding step ih dr' d0 scan_spec_token [OF cl mem] tok_def [symmetric]
          by (cases "scan_spec (tl (dropWhile (\<lambda>x. x \<noteq> em) xs))") (simp_all add: acc'_def)
      qed
    qed
  qed
qed

lemma parse_ins_string_scan_spec:
  "parse_ins_string s = (case scan_spec s of Some ts \<Rightarrow> Inr ts | None \<Rightarrow> Inl ValueError)"
  by (simp add: parse_ins_string_def parse_ins_loop_scan_spec split: option.splits)

lemma scan_spec_empty_token:
  assumes "closer a = Some b" and "\<forall>x\<in>set pre. closer x = None"
  shows "scan_spec (pre @ a # b # post) = map_option ((#) []) (scan_spec post)"
  using assms(2)
proof (induction pre)
  case Nil
  have mem: "b \<in> set (b # post)" by simp
  have t: "takeWhile (\<lambda>x. x \<noteq> b) (b # post) = []" by simp
  have d: "tl (dropWhile (\<lambda>x. x \<noteq> b) (b # post)) = post" by simp
  have "scan_spec (a # b # post) =
          map_option (\<lambda>ts. if lower [] = ''dum'' then ts else [] # ts) (scan_spec post)"
    using scan_spec_token [OF assms(1) mem] unfolding t d .
  also have "\<dots> = map_option ((#) []) (scan_spec post)"
    by (simp add: lower_def)
  finally show ?case by (simp only: append_Nil)
next
  case (Cons x pre)
  then have "closer x = None" and "pre @ a # b # post \<noteq> []" by simp_all
  then have "scan_spec (x # (pre @ a # b # post)) = scan_spec (pre @ a # b # post)"
    by (rule scan_spec_plain)
  with Cons show ?case by simp
qed

text \<open>
  C1. On every line on which each opening marker that the scan meets has a closing marker
  after it, \<open>parse_ins_string\<close> returns the tokens of the scanning rule: an opening marker
  \<open>[\<close>, \<open>(\<close> or \<open>!\<close> that is not the final character opens a token, the token is the text
  strictly between it and the first matching closing marker after it, a token that is
  \<open>dum\<close> in any letter case is dropped, the other tokens are returned in the order of the
  scan, and the scan resumes after the closing marker. The line
  \<open>l1 w w w !obs1! w !dum! !obs2!\<close> gives \<open>obs1\<close>, \<open>obs2\<close>.
\<close>

theorem parse_ins_string_follows_rule:
  "(scan_spec line = Some tokens \<longrightarrow> parse_ins_string line = Inr tokens)
   \<and> parse_ins_string ''l1 w w w !obs1! w !dum! !obs2!'' = Inr [''obs1'', ''obs2'']"
proof (intro conjI impI)
  assume "scan_spec line = Some tokens"
  then show "parse_ins_string line = Inr tokens"
    by (simp add: parse_ins_string_scan_spec)
next
  show "parse_ins_string ''l1 w w w !obs1! w !dum! !obs2!'' = Inr [''obs1'', ''obs2'']"
    by (simp add: scanner_defs)
qed

theorem parse_ins_string_follows_rule_witness:
  "scan_spec ''a (x1) [DuM] w !y2!'' = Some [''x1'', ''y2'']
   \<and> parse_ins_string ''a (x1) [DuM] w !y2!'' = Inr [''x1'', ''y2'']"
proof -
  have h: "scan_spec ''a (x1) [DuM] w !y2!'' = Some [''x1'', ''y2'']"
    by (simp add: closer_def lower_def lower_char_def)
  from parse_ins_string_follows_rule [of "''a (x1) [DuM] w !y2!''" "[''x1'', ''y2'']"] h
  show ?thesis by blast
qed

text \<open>
  C2, at the line \<open>!abc\<close>: the opening marker at position 0 has no closing marker after
  it, and \<open>string[idx+1:].index(em)\<close> raises \<open>ValueError\<close>; no token is returned.
\<close>

theorem parse_ins_string_unclosed_raises:
  "parse_ins_string ''!abc'' = Inl ValueError"
  by (simp add: scanner_defs)

text \<open>
  C10. \<open>parse_ins_string\<close> returns empty tokens: an opening marker directly followed by
  its closing marker, after text without opening markers, gives the empty string as the
  first token, and the scan goes on after the pair. The lines \<open>!!\<close> and \<open>a[]b\<close> both give
  the list whose only element is the empty string.
\<close>

theorem parse_ins_string_empty_token:
  "((a, b) \<in> set (zip istart_markers iend_markers) \<and> set pre \<inter> set istart_markers = {} \<longrightarrow>
      parse_ins_string (pre @ [a, b] @ post) =
        (case parse_ins_string post of Inl e \<Rightarrow> Inl e | Inr names \<Rightarrow> Inr ('''' # names)))
   \<and> parse_ins_string ''!!'' = Inr ['''']
   \<and> parse_ins_string ''a[]b'' = Inr ['''']"
proof (intro conjI impI)
  assume h: "(a, b) \<in> set (zip istart_markers iend_markers) \<and> set pre \<inter> set istart_markers = {}"
  then have cl: "closer a = Some b" by (simp add: closer_zip)
  have "\<forall>x\<in>set pre. closer x = None" using h not_marker by blast
  from scan_spec_empty_token [OF cl this, of post]
  show "parse_ins_string (pre @ [a, b] @ post) =
          (case parse_ins_string post of Inl e \<Rightarrow> Inl e | Inr names \<Rightarrow> Inr ('''' # names))"
    by (simp add: parse_ins_string_scan_spec split: option.splits)
next
  show "parse_ins_string ''!!'' = Inr ['''']"
    by (simp add: scanner_defs)
next
  show "parse_ins_string ''a[]b'' = Inr ['''']"
    by (simp add: scanner_defs)
qed

theorem parse_ins_string_empty_token_witness:
  "(CHR ''('', CHR '')'') \<in> set (zip istart_markers iend_markers)
   \<and> set ''l1 w'' \<inter> set istart_markers = {}
   \<and> parse_ins_string (''l1 w'' @ [CHR ''('', CHR '')''] @ ''!h1!'') = Inr ['''', ''h1'']"
proof -
  have h: "(CHR ''('', CHR '')'') \<in> set (zip istart_markers iend_markers)
           \<and> set ''l1 w'' \<inter> set istart_markers = {}"
    by (simp add: istart_markers_def iend_markers_def)
  have p: "parse_ins_string ''!h1!'' = Inr [''h1'']"
    by (simp add: scanner_defs)
  from parse_ins_string_empty_token [of "CHR ''(''" "CHR '')''" "''l1 w''" "''!h1!''"] h
  have "parse_ins_string (''l1 w'' @ [CHR ''('', CHR '')''] @ ''!h1!'') =
          (case parse_ins_string ''!h1!'' of Inl e \<Rightarrow> Inl e | Inr names \<Rightarrow> Inr ('''' # names))"
    by blast
  with h p show ?thesis by simp
qed

section \<open>Properties of the file parsers\<close>

lemmas parser_defs =
  parse_tpl_file_def tpl_try_def parse_ins_file_def readline_def strip_def is_space_def
  split_ws_def split_on_def lower_def lower_char_def

text \<open>
  C3, at the template file with the header \<open>ptf #\<close> and the body line \<open>#par1# #PAR1#\<close>: the
  fields \<open>par1\<close> and \<open>PAR1\<close> differ when they are compared, and both are lower-cased
  afterwards, so the returned list holds \<open>par1\<close> twice.
\<close>

theorem parse_tpl_file_returns_duplicate:
  "parse_tpl_file [''ptf #'', ''#par1# #PAR1#''] = Inr [''par1'', ''par1'']"
  by (simp add: parser_defs)

text \<open>
  C6, at the instruction file whose only line is the header \<open>pif ~ extra\<close>: the header has
  three tokens, and \<open>parse_ins_file\<close> returns the empty list of names without an error.
\<close>

theorem parse_ins_file_accepts_long_header:
  "length (split_ws (strip ''pif ~ extra'')) = 3
   \<and> parse_ins_file [''pif ~ extra''] = Inr []"
  by (simp add: parser_defs)

section \<open>Properties of the Monte Carlo engine\<close>

subsection \<open>Effective rank\<close>

lemma searchsorted_loop_bounds:
  "sorted (map np_key a) \<Longrightarrow> lo \<le> hi \<Longrightarrow> hi \<le> length a \<Longrightarrow>
   (\<forall>i<lo. np_less (a ! i) v) \<Longrightarrow>
   (\<forall>i. hi \<le> i \<and> i < length a \<longrightarrow> \<not> np_less (a ! i) v) \<Longrightarrow>
   searchsorted_loop a v lo hi \<le> length a
   \<and> (\<forall>i<searchsorted_loop a v lo hi. np_less (a ! i) v)
   \<and> (\<forall>i. searchsorted_loop a v lo hi \<le> i \<and> i < length a \<longrightarrow> \<not> np_less (a ! i) v)"
proof (induction a v lo hi rule: searchsorted_loop.induct)
  case (1 a v lo hi)
  have key_mono: "np_key (a ! i) \<le> np_key (a ! j)" if "i \<le> j" "j < length a" for i j
    using sorted_nth_mono [OF "1.prems"(1), of i j] that by simp
  show ?case
  proof (cases "lo < hi")
    case False
    then have "searchsorted_loop a v lo hi = lo"
      by (subst searchsorted_loop.simps) simp
    moreover have "lo = hi" using False "1.prems"(2) by simp
    ultimately show ?thesis using "1.prems" by simp
  next
    case True
    define mid where "mid = lo + (hi - lo) div 2"
    have mid: "lo \<le> mid" "mid < hi" using True by (simp_all add: mid_def)
    show ?thesis
    proof (cases "np_less (a ! mid) v")
      case less: True
      have eq: "searchsorted_loop a v lo hi = searchsorted_loop a v (mid + 1) hi"
        using True less by (subst searchsorted_loop.simps) (simp add: mid_def Let_def)
      have below: "\<forall>i<mid + 1. np_less (a ! i) v"
      proof (intro allI impI)
        fix i assume "i < mid + 1"
        then have "i \<le> mid" by simp
        moreover have "mid < length a" using mid "1.prems"(3) by simp
        ultimately have kle: "np_key (a ! i) \<le> np_key (a ! mid)" by (rule key_mono)
        show "np_less (a ! i) v"
          unfolding np_less_def by (rule le_less_trans [OF kle less [unfolded np_less_def]])
      qed
      have "mid + 1 \<le> hi" using mid by simp
      then show ?thesis
        unfolding eq
        by (rule "1.IH"(1) [OF True mid_def less "1.prems"(1) _ "1.prems"(3) below "1.prems"(5)])
    next
      case geq: False
      have eq: "searchsorted_loop a v lo hi = searchsorted_loop a v lo mid"
        using True geq by (subst searchsorted_loop.simps) (simp add: mid_def Let_def)
      have above: "\<forall>i. mid \<le> i \<and> i < length a \<longrightarrow> \<not> np_less (a ! i) v"
      proof (intro allI impI)
        fix i assume h: "mid \<le> i \<and> i < length a"
        then have kle: "np_key (a ! mid) \<le> np_key (a ! i)" by (intro key_mono) simp_all
        show "\<not> np_less (a ! i) v"
        proof
          assume "np_less (a ! i) v"
          then have "np_key (a ! mid) < np_key v"
            unfolding np_less_def using kle by (rule le_less_trans [rotated])
          with geq show False by (simp add: np_less_def)
        qed
      qed
      have "mid \<le> length a" using mid "1.prems"(3) by simp
      show ?thesis
        unfolding eq
        by (rule "1.IH"(2) [OF True mid_def geq "1.prems"(1) mid(1) \<open>mid \<le> length a\<close>
              "1.prems"(4) above])
    qed
  qed
qed

lemma filter_prefix:
  assumes "r \<le> length a" and "\<forall>i<r. P (a ! i)" and "\<forall>i. r \<le> i \<and> i < length a \<longrightarrow> \<not> P (a ! i)"
  shows "length (filter P a) = r"
proof -
  have "filter P (take r a) = take r a"
    using assms(1,2) by (auto simp: filter_id_conv in_set_conv_nth)
  moreover have "filter P (drop r a) = []"
    using assms(1,3) by (auto simp: filter_empty_conv in_set_conv_nth)
  moreover have "filter P a = filter P (take r a) @ filter P (drop r a)"
    by (simp only: filter_append [symmetric] append_take_drop_id)
  ultimately have "filter P a = take r a"
    by simp
  then show ?thesis using assms(1) by simp
qed

lemma searchsorted_count:
  assumes "sorted (map np_key a)"
  shows "searchsorted a v = length (filter (\<lambda>x. np_less x v) a)"
proof -
  have b: "searchsorted_loop a v 0 (length a) \<le> length a
   \<and> (\<forall>i<searchsorted_loop a v 0 (length a). np_less (a ! i) v)
   \<and> (\<forall>i. searchsorted_loop a v 0 (length a) \<le> i \<and> i < length a \<longrightarrow> \<not> np_less (a ! i) v)"
  proof (rule searchsorted_loop_bounds [OF assms])
    show "0 \<le> length a" by simp
    show "length a \<le> length a" by simp
    show "\<forall>i<0. np_less (a ! i) v" by simp
    show "\<forall>i. length a \<le> i \<and> i < length a \<longrightarrow> \<not> np_less (a ! i) v"
    proof (intro allI impI)
      fix i assume "length a \<le> i \<and> i < length a"
      then have False by linarith
      then show "\<not> np_less (a ! i) v" ..
    qed
  qed
  have "length (filter (\<lambda>x. np_less x v) a) = searchsorted_loop a v 0 (length a)"
    by (rule filter_prefix) (use b in blast)+
  then show ?thesis unfolding searchsorted_def by (rule sym)
qed

lemma searchsorted_np_sort:
  "searchsorted (np_sort (map f xs)) v = length (filter (\<lambda>x. np_less (f x) v) xs)"
proof -
  have "searchsorted (np_sort (map f xs)) v
          = length (filter (\<lambda>y. np_less y v) (sort_key np_key (map f xs)))"
    by (simp add: searchsorted_count np_sort_def)
  also have "\<dots> = length (sort_key np_key (filter (\<lambda>y. np_less y v) (map f xs)))"
    by (simp only: filter_sort)
  also have "\<dots> = length (filter (\<lambda>x. np_less (f x) v) xs)"
    by (simp add: filter_map comp_def)
  finally show ?thesis .
qed

lemma array_max_Max: "s \<noteq> [] \<Longrightarrow> array_max s = Inr (Max (set s))"
proof (cases s)
  case Nil
  assume "s \<noteq> []"
  with Nil show ?thesis by simp
next
  case (Cons x xs)
  show ?thesis unfolding Cons array_max_def
    by (simp only: Max.set_eq_fold list.case)
qed

lemma get_nsing_count:
  assumes "s \<noteq> []"
  shows "get_nsing rnd s eps =
           Inr (int (length (filter (\<lambda>x. \<not> np_less (np_divide rnd x (Max (set s))) (Finite eps)) s)))"
proof -
  let ?r = "\<lambda>x. np_divide rnd x (Max (set s))"
  have "length s = length (filter (\<lambda>x. np_less (?r x) (Finite eps)) s)
                   + length (filter (\<lambda>x. \<not> np_less (?r x) (Finite eps)) s)"
    by (simp only: sum_length_filter_compl)
  then have "int (length s) - int (length (filter (\<lambda>x. np_less (?r x) (Finite eps)) s))
             = int (length (filter (\<lambda>x. \<not> np_less (?r x) (Finite eps)) s))"
    by simp
  then show ?thesis
    using assms by (simp add: get_nsing_def array_max_Max searchsorted_np_sort)
qed

lemma not_np_less_iff:
  "r \<noteq> NaN \<Longrightarrow> \<not> np_less r (Finite e) \<longleftrightarrow> ratio_ge r e"
  by (cases r) (auto simp: np_less_def ratio_ge_def)

text \<open>For a spectrum whose largest value is not zero and whose rounded ratios are not
  NaN, the rank is the count of the ratios that are at least \<open>epsilon\<close>.\<close>

lemma get_nsing_count_ge:
  assumes "s \<noteq> []" and "Max (set s) \<noteq> 0" and "\<forall>x\<in>set s. rnd (x / Max (set s)) \<noteq> NaN"
  shows "get_nsing rnd s eps =
           Inr (int (length (filter (\<lambda>x. ratio_ge (np_divide rnd x (Max (set s))) eps) s)))"
proof -
  have "filter (\<lambda>x. \<not> np_less (np_divide rnd x (Max (set s))) (Finite eps)) s
        = filter (\<lambda>x. ratio_ge (np_divide rnd x (Max (set s))) eps) s"
    using assms(2,3) by (intro filter_cong refl) (simp add: np_divide_def not_np_less_iff)
  then show ?thesis using get_nsing_count [OF assms(1), of rnd eps] by simp
qed

text \<open>
  C4, at the spectrum 0, 0 with \<open>epsilon\<close> = 1e-6: both ratios are \<open>0 / 0\<close>, that is NaN;
  NaN is less than no value, so the insertion point of \<open>epsilon\<close> is 0 and \<open>get_nsing\<close>
  returns 2, the length of the spectrum, while no ratio is at least \<open>epsilon\<close>: the count
  of the claim is 0.
\<close>

theorem get_nsing_zero_spectrum:
  "get_nsing rnd [0, 0] (1 / 10 ^ 6) = Inr 2
   \<and> length (filter (\<lambda>x. ratio_ge (np_divide rnd x 0) (1 / 10 ^ 6)) [0, 0]) = 0"
  by (simp add: get_nsing_def array_max_def np_divide_def np_sort_def searchsorted_def
      searchsorted_loop.simps np_less_def ratio_ge_def)

lemma length_filter_mono:
  "(\<And>x. x \<in> set xs \<Longrightarrow> P x \<Longrightarrow> Q x) \<Longrightarrow> length (filter P xs) \<le> length (filter Q xs)"
  by (induction xs) auto

lemma np_less_Finite_mono: "e1 \<le> e2 \<Longrightarrow> np_less r (Finite e1) \<Longrightarrow> np_less r (Finite e2)"
  by (cases r) (auto simp: np_less_def)

text \<open>
  C8. For a fixed non-empty spectrum, \<open>get_nsing\<close> returns a rank for every \<open>epsilon\<close>,
  and the rank does not grow with \<open>epsilon\<close>: for \<open>eps1 \<le> eps2\<close> the rank for \<open>eps2\<close> is at
  most the rank for \<open>eps1\<close>.
\<close>

theorem get_nsing_antimono:
  assumes "s \<noteq> []" and "eps1 \<le> eps2"
  shows "\<exists>n1 n2. get_nsing rnd s eps1 = Inr n1 \<and> get_nsing rnd s eps2 = Inr n2 \<and> n2 \<le> n1"
proof -
  have "length (filter (\<lambda>x. \<not> np_less (np_divide rnd x (Max (set s))) (Finite eps2)) s)
          \<le> length (filter (\<lambda>x. \<not> np_less (np_divide rnd x (Max (set s))) (Finite eps1)) s)"
    using np_less_Finite_mono [OF assms(2)] by (intro length_filter_mono) blast
  then show ?thesis
    using get_nsing_count [OF assms(1)] by simp
qed

theorem get_nsing_antimono_witness:
  "[4, 2, 1 :: real] \<noteq> [] \<and> (1 / 8 :: real) \<le> 1 / 2
   \<and> (\<exists>n1 n2. get_nsing Finite [4, 2, 1] (1 / 8) = Inr n1
              \<and> get_nsing Finite [4, 2, 1] (1 / 2) = Inr n2 \<and> n2 \<le> n1)"
proof -
  have h1: "[4, 2, 1 :: real] \<noteq> []" by simp
  have h2: "(1 / 8 :: real) \<le> 1 / 2" by simp
  from h1 h2 get_nsing_antimono [OF h1 h2, of Finite] show ?thesis by blast
qed

subsection \<open>Null-space projector\<close>

lemma map_const_replicate: "map (\<lambda>x. c) xs = replicate (length xs) c"
  by (induction xs) simp_all

text \<open>
  C9. For a well-formed matrix \<open>v\<close> of right singular vectors with one column for each
  singular value: with \<open>nsing\<close> the length of the spectrum, \<open>get_null_proj\<close> returns the
  zero matrix (the slice has no column); with \<open>nsing = 0\<close> it returns the product of \<open>v\<close>
  and its transpose, whose entry at \<open>i\<close>, \<open>j\<close> is the sum over the columns \<open>l\<close> of
  \<open>v[i,l] * v[j,l]\<close>.
\<close>

theorem null_proj_extremes:
  assumes "wf_matrix (xtqx_v q)" and "ncol (xtqx_v q) = length (xtqx_s q)"
  shows "get_null_proj rnd q (Some (int (length (xtqx_s q)))) =
           Inr (zero_matrix (nrow (xtqx_v q)) (nrow (xtqx_v q)))
       \<and> get_null_proj rnd q (Some 0) = mult_matrix (xtqx_v q) (transpose_matrix (xtqx_v q))
       \<and> (\<exists>p. get_null_proj rnd q (Some 0) = Inr p
              \<and> nrow p = nrow (xtqx_v q) \<and> ncol p = nrow (xtqx_v q)
              \<and> (\<forall>i<nrow (xtqx_v q). \<forall>j<nrow (xtqx_v q).
                    entries p ! i ! j =
                      (\<Sum>l\<leftarrow>[0..<ncol (xtqx_v q)].
                         entries (xtqx_v q) ! i ! l * entries (xtqx_v q) ! j ! l)))"
proof (intro conjI)
  let ?V = "xtqx_v q"
  have len: "length (entries ?V) = nrow ?V" using assms(1) by (simp add: wf_matrix_def)
  have full: "slice_start (ncol ?V) (int (length (xtqx_s q))) = ncol ?V"
    using assms(2) by (simp add: slice_start_def)
  show "get_null_proj rnd q (Some (int (length (xtqx_s q)))) = Inr (zero_matrix (nrow ?V) (nrow ?V))"
    by (simp add: get_null_proj_def cols_from_def full transpose_matrix_def mult_matrix_def
        zero_matrix_def len map_const_replicate comp_def)
  have whole: "cols_from ?V 0 = ?V"
    by (simp add: cols_from_def slice_start_def)
  show "get_null_proj rnd q (Some 0) = mult_matrix ?V (transpose_matrix ?V)"
    by (simp add: get_null_proj_def whole)
  show "\<exists>p. get_null_proj rnd q (Some 0) = Inr p
          \<and> nrow p = nrow ?V \<and> ncol p = nrow ?V
          \<and> (\<forall>i<nrow ?V. \<forall>j<nrow ?V.
                entries p ! i ! j =
                  (\<Sum>l\<leftarrow>[0..<ncol ?V]. entries ?V ! i ! l * entries ?V ! j ! l))"
  proof -
    have ent: "map (\<lambda>l. entries ?V ! i ! l * (entries (transpose_matrix ?V) ! l ! j)) [0..<ncol ?V]
               = map (\<lambda>l. entries ?V ! i ! l * entries ?V ! j ! l) [0..<ncol ?V]"
      if "j < nrow ?V" for i j
      using that len by (intro map_cong) (simp_all add: transpose_matrix_def)
    have shape: "nrow (transpose_matrix ?V) = ncol ?V" "ncol (transpose_matrix ?V) = nrow ?V"
      by (simp_all add: transpose_matrix_def)
    show ?thesis
      using len by (simp add: get_null_proj_def whole mult_matrix_def shape ent)
  qed
qed

theorem null_proj_extremes_witness:
  "wf_matrix \<lparr>nrow = 2, ncol = 2, entries = [[1, 2], [3, 4]]\<rparr>
   \<and> get_null_proj Finite \<lparr>xtqx_s = [2, 1], xtqx_v = \<lparr>nrow = 2, ncol = 2, entries = [[1, 2], [3, 4]]\<rparr>\<rparr>
        (Some 2) = Inr \<lparr>nrow = 2, ncol = 2, entries = [[0, 0], [0, 0]]\<rparr>
   \<and> get_null_proj Finite \<lparr>xtqx_s = [2, 1], xtqx_v = \<lparr>nrow = 2, ncol = 2, entries = [[1, 2], [3, 4]]\<rparr>\<rparr>
        (Some 0) = Inr \<lparr>nrow = 2, ncol = 2, entries = [[5, 11], [11, 25]]\<rparr>"
proof -
  define q where "q = \<lparr>xtqx_s = [2, 1], xtqx_v = \<lparr>nrow = 2, ncol = 2, entries = [[1, 2], [3, 4]]\<rparr>\<rparr>"
  have h1: "wf_matrix (xtqx_v q)" by (simp add: q_def wf_matrix_def)
  have h2: "ncol (xtqx_v q) = length (xtqx_s q)" by (simp add: q_def)
  note t = null_proj_extremes [OF h1 h2, of Finite]
  have "get_null_proj Finite q (Some (int (length (xtqx_s q)))) =
          Inr (zero_matrix (nrow (xtqx_v q)) (nrow (xtqx_v q)))"
    using t by blast
  then have a: "get_null_proj Finite q (Some 2) = Inr \<lparr>nrow = 2, ncol = 2, entries = [[0, 0], [0, 0]]\<rparr>"
    by (simp add: q_def zero_matrix_def numeral_2_eq_2)
  have "get_null_proj Finite q (Some 0) = mult_matrix (xtqx_v q) (transpose_matrix (xtqx_v q))"
    using t by blast
  also have "\<dots> = Inr \<lparr>nrow = 2, ncol = 2, entries = [[5, 11], [11, 25]]\<rparr>"
  proof -
    have u: "[0..<2] = [0, Suc 0]" by (simp add: upt_rec)
    show ?thesis
      by (simp add: q_def mult_matrix_def transpose_matrix_def u)
  qed
  finally have b: "get_null_proj Finite q (Some 0) = Inr \<lparr>nrow = 2, ncol = 2, entries = [[5, 11], [11, 25]]\<rparr>" .
  from h1 a b show ?thesis unfolding q_def by simp
qed

subsection \<open>Writing the realizations\<close>

lemma set_value_Nil: "set_value k x [] = []"
  by (simp add: set_value_def)

lemma set_value_Cons:
  "set_value k x ((n, w) # tbl) = (if n = k then (n, x) else (n, w)) # set_value k x tbl"
  by (simp add: set_value_def)

lemma fst_set_value: "map fst (set_value k x tbl) = map fst tbl"
  by (induction tbl) (auto simp: set_value_Nil set_value_Cons)

lemma map_of_set_value:
  "map_of (set_value k x tbl) k' =
     (if k' = k \<and> k \<in> fst ` set tbl then Some x else map_of tbl k')"
proof (induction tbl)
  case Nil
  show ?case by (simp add: set_value_Nil)
next
  case (Cons p tbl)
  obtain n w where p: "p = (n, w)" by (cases p)
  show ?case
    unfolding p set_value_Cons using Cons.IH
    by (cases "n = k"; cases "k' = k") (simp_all add: image_iff)
qed

lemma keys_eq: "map fst t' = map fst t \<Longrightarrow> fst ` set t' = fst ` set t"
  by (metis set_map)

lemma loc_assign_ok:
  assumes "fst ` set series \<subseteq> fst ` set tbl" and "distinct (map fst series)"
  shows "\<exists>tbl'. loc_assign tbl series = Inr tbl'
           \<and> map fst tbl' = map fst tbl
           \<and> (\<forall>k. k \<notin> fst ` set series \<longrightarrow> map_of tbl' k = map_of tbl k)
           \<and> (\<forall>(k, x)\<in>set series. map_of tbl' k = Some x)"
  using assms
proof (induction series arbitrary: tbl)
  case Nil
  then show ?case by simp
next
  case (Cons p series)
  obtain label x where p: "p = (label, x)" by (cases p)
  let ?t = "set_value label x tbl"
  have inkeys: "label \<in> fst ` set tbl" using Cons.prems(1) p by simp
  have keys: "fst ` set ?t = fst ` set tbl" by (rule keys_eq [OF fst_set_value])
  have fresh: "label \<notin> fst ` set series" using Cons.prems(2) p by (simp add: image_iff)
  have "fst ` set series \<subseteq> fst ` set ?t" using Cons.prems(1) keys by simp
  moreover have "distinct (map fst series)" using Cons.prems(2) by simp
  ultimately obtain tbl' where
    r: "loc_assign ?t series = Inr tbl'" and
    f: "map fst tbl' = map fst ?t" and
    u: "\<forall>k. k \<notin> fst ` set series \<longrightarrow> map_of tbl' k = map_of ?t k" and
    s: "\<forall>(k, x)\<in>set series. map_of tbl' k = Some x"
    using Cons.IH [of ?t] by blast
  have "loc_assign tbl (p # series) = Inr tbl'" using r inkeys p by simp
  moreover have "map fst tbl' = map fst tbl" using f by (simp add: fst_set_value)
  moreover have "\<forall>k. k \<notin> fst ` set (p # series) \<longrightarrow> map_of tbl' k = map_of tbl k"
    using u p by (simp add: map_of_set_value)
  moreover have "map_of tbl' label = Some x"
    using u fresh inkeys by (simp add: map_of_set_value)
  then have "\<forall>(k, x)\<in>set (p # series). map_of tbl' k = Some x"
    using s p by simp
  ultimately show ?case by blast
qed

lemma loc_assign_row:
  assumes "length row = length cols" and "distinct cols" and "set cols \<subseteq> fst ` set tbl"
  shows "\<exists>tbl'. loc_assign tbl (zip cols row) = Inr tbl'
           \<and> map fst tbl' = map fst tbl \<and> holds_row tbl' cols row"
proof -
  have m: "map fst (zip cols row) = cols" using assms(1) by simp
  have "fst ` set (zip cols row) \<subseteq> fst ` set tbl"
    using assms(3) m by (metis set_map)
  moreover have "distinct (map fst (zip cols row))" using m assms(2) by simp
  ultimately obtain tbl' where
    r: "loc_assign tbl (zip cols row) = Inr tbl'" and
    f: "map fst tbl' = map fst tbl" and
    s: "\<forall>(k, x)\<in>set (zip cols row). map_of tbl' k = Some x"
    using loc_assign_ok [of "zip cols row" tbl] by blast
  have "holds_row tbl' cols row"
    unfolding holds_row_def
  proof (intro allI impI)
    fix j assume j: "j < length cols"
    then have "(cols ! j, row ! j) \<in> set (zip cols row)"
      using assms(1) by (auto simp: set_zip)
    with s show "map_of tbl' (cols ! j) = Some (row ! j)" by blast
  qed
  with r f show ?thesis by blast
qed

lemma write_loop_step:
  fixes mc :: "'v monte_carlo"
  assumes par: "wf_ensemble par_en (parameter_data (mc_pst mc))"
    and shp: "shape0 par_en = num_reals mc"
    and obs: "shape0 (obsensemble mc) = num_reals mc \<longrightarrow>
                wf_ensemble (obsensemble mc) (observation_data (mc_pst mc))"
    and i: "i < num_reals mc"
    and kp: "map fst (parameter_data pst) = map fst (parameter_data (mc_pst mc))"
    and ko: "map fst (observation_data pst) = map fst (observation_data (mc_pst mc))"
    and same: "shape0 (obsensemble mc) \<noteq> num_reals mc \<longrightarrow>
                observation_data pst = observation_data (mc_pst mc)"
  shows "\<exists>pst'. write_loop mc par_en prefix (i # rest) pst files =
                   write_loop mc par_en prefix rest pst'
                     (files @ [(prefix @ format_d i @ ''.pst'', pst')])
           \<and> map fst (parameter_data pst') = map fst (parameter_data (mc_pst mc))
           \<and> map fst (observation_data pst') = map fst (observation_data (mc_pst mc))
           \<and> (shape0 (obsensemble mc) \<noteq> num_reals mc \<longrightarrow>
                observation_data pst' = observation_data (mc_pst mc))
           \<and> holds_row (parameter_data pst') (columns par_en) (realizations par_en ! i)
           \<and> (if shape0 (obsensemble mc) = num_reals mc
               then holds_row (observation_data pst') (columns (obsensemble mc))
                      (realizations (obsensemble mc) ! i)
               else observation_data pst' = observation_data (mc_pst mc))"
proof -
  let ?row = "realizations par_en ! i"
  have in_rows: "?row \<in> set (realizations par_en)"
    using i shp by (simp add: shape0_def)
  have il: "iloc par_en i = Inr (zip (columns par_en) ?row)"
    using i shp by (simp add: iloc_def)
  have "length ?row = length (columns par_en)" "distinct (columns par_en)"
    "set (columns par_en) \<subseteq> fst ` set (parameter_data pst)"
    using par in_rows keys_eq [OF kp] by (simp_all add: wf_ensemble_def)
  then obtain pd where
    pd: "loc_assign (parameter_data pst) (zip (columns par_en) ?row) = Inr pd" and
    pdk: "map fst pd = map fst (parameter_data pst)" and
    pdh: "holds_row pd (columns par_en) ?row"
    using loc_assign_row by blast
  show ?thesis
  proof (cases "shape0 (obsensemble mc) = num_reals mc")
    case True
    let ?en = "obsensemble mc"
    let ?orow = "realizations ?en ! i"
    have wf: "wf_ensemble ?en (observation_data (mc_pst mc))" using obs True by simp
    have in_orows: "?orow \<in> set (realizations ?en)"
      using i True by (simp add: shape0_def)
    have oil: "iloc ?en i = Inr (zip (columns ?en) ?orow)"
      using i True by (simp add: iloc_def)
    have "length ?orow = length (columns ?en)" "distinct (columns ?en)"
      "set (columns ?en) \<subseteq> fst ` set (observation_data pst)"
      using wf in_orows keys_eq [OF ko] by (simp_all add: wf_ensemble_def)
    then obtain od where
      od: "loc_assign (observation_data pst) (zip (columns ?en) ?orow) = Inr od" and
      odk: "map fst od = map fst (observation_data pst)" and
      odh: "holds_row od (columns ?en) ?orow"
      using loc_assign_row by blast
    let ?pst' = "pst\<lparr>parameter_data := pd, observation_data := od\<rparr>"
    have "write_loop mc par_en prefix (i # rest) pst files =
            write_loop mc par_en prefix rest ?pst'
              (files @ [(prefix @ format_d i @ ''.pst'', ?pst')])"
      using il pd oil od True by (simp add: Let_def)
    then show ?thesis
      using pdk kp odk ko pdh odh True by (intro exI [of _ ?pst']) simp
  next
    case False
    let ?pst' = "pst\<lparr>parameter_data := pd, observation_data := observation_data pst\<rparr>"
    have "write_loop mc par_en prefix (i # rest) pst files =
            write_loop mc par_en prefix rest ?pst'
              (files @ [(prefix @ format_d i @ ''.pst'', ?pst')])"
      using il pd False by (simp add: Let_def)
    then show ?thesis
      using pdk kp ko pdh same False by (intro exI [of _ ?pst']) simp
  qed
qed

lemma write_loop_ok:
  fixes mc :: "'v monte_carlo"
  assumes par: "wf_ensemble par_en (parameter_data (mc_pst mc))"
    and shp: "shape0 par_en = num_reals mc"
    and obs: "shape0 (obsensemble mc) = num_reals mc \<longrightarrow>
                wf_ensemble (obsensemble mc) (observation_data (mc_pst mc))"
  shows "\<forall>i\<in>set idxs. i < num_reals mc \<Longrightarrow>
     map fst (parameter_data pst) = map fst (parameter_data (mc_pst mc)) \<Longrightarrow>
     map fst (observation_data pst) = map fst (observation_data (mc_pst mc)) \<Longrightarrow>
     (shape0 (obsensemble mc) \<noteq> num_reals mc \<longrightarrow>
        observation_data pst = observation_data (mc_pst mc)) \<Longrightarrow>
     \<exists>arts. write_loop mc par_en prefix idxs pst files = (files @ arts, None)
       \<and> length arts = length idxs
       \<and> (\<forall>k<length idxs.
             fst (arts ! k) = prefix @ format_d (idxs ! k) @ ''.pst''
             \<and> holds_row (parameter_data (snd (arts ! k))) (columns par_en)
                 (realizations par_en ! (idxs ! k))
             \<and> (if shape0 (obsensemble mc) = num_reals mc
                 then holds_row (observation_data (snd (arts ! k))) (columns (obsensemble mc))
                        (realizations (obsensemble mc) ! (idxs ! k))
                 else observation_data (snd (arts ! k)) = observation_data (mc_pst mc)))"
proof (induction idxs arbitrary: pst files)
  case Nil
  show ?case by simp
next
  case (Cons i idxs)
  have i: "i < num_reals mc" using Cons.prems(1) by simp
  from write_loop_step [OF par shp obs i Cons.prems(2,3,4), of prefix idxs files]
  obtain pst' where
    step: "write_loop mc par_en prefix (i # idxs) pst files =
             write_loop mc par_en prefix idxs pst'
               (files @ [(prefix @ format_d i @ ''.pst'', pst')])" and
    kp: "map fst (parameter_data pst') = map fst (parameter_data (mc_pst mc))" and
    ko: "map fst (observation_data pst') = map fst (observation_data (mc_pst mc))" and
    same: "shape0 (obsensemble mc) \<noteq> num_reals mc \<longrightarrow>
             observation_data pst' = observation_data (mc_pst mc)" and
    hp: "holds_row (parameter_data pst') (columns par_en) (realizations par_en ! i)" and
    ho: "if shape0 (obsensemble mc) = num_reals mc
         then holds_row (observation_data pst') (columns (obsensemble mc))
                (realizations (obsensemble mc) ! i)
         else observation_data pst' = observation_data (mc_pst mc)"
    by blast
  have rest: "\<forall>i\<in>set idxs. i < num_reals mc" using Cons.prems(1) by simp
  from Cons.IH [OF rest kp ko same, of "files @ [(prefix @ format_d i @ ''.pst'', pst')]"]
  obtain arts where
    r: "write_loop mc par_en prefix idxs pst'
          (files @ [(prefix @ format_d i @ ''.pst'', pst')]) =
        ((files @ [(prefix @ format_d i @ ''.pst'', pst')]) @ arts, None)" and
    l: "length arts = length idxs" and
    g: "\<forall>k<length idxs.
             fst (arts ! k) = prefix @ format_d (idxs ! k) @ ''.pst''
             \<and> holds_row (parameter_data (snd (arts ! k))) (columns par_en)
                 (realizations par_en ! (idxs ! k))
             \<and> (if shape0 (obsensemble mc) = num_reals mc
                 then holds_row (observation_data (snd (arts ! k))) (columns (obsensemble mc))
                        (realizations (obsensemble mc) ! (idxs ! k))
                 else observation_data (snd (arts ! k)) = observation_data (mc_pst mc))"
    by blast
  let ?arts = "(prefix @ format_d i @ ''.pst'', pst') # arts"
  have "write_loop mc par_en prefix (i # idxs) pst files = (files @ ?arts, None)"
    using step r by simp
  moreover have "length ?arts = length (i # idxs)" using l by simp
  moreover have "\<forall>k<length (i # idxs).
             fst (?arts ! k) = prefix @ format_d ((i # idxs) ! k) @ ''.pst''
             \<and> holds_row (parameter_data (snd (?arts ! k))) (columns par_en)
                 (realizations par_en ! ((i # idxs) ! k))
             \<and> (if shape0 (obsensemble mc) = num_reals mc
                 then holds_row (observation_data (snd (?arts ! k))) (columns (obsensemble mc))
                        (realizations (obsensemble mc) ! ((i # idxs) ! k))
                 else observation_data (snd (?arts ! k)) = observation_data (mc_pst mc))"
  proof (intro allI impI)
    fix k assume "k < length (i # idxs)"
    then show "fst (?arts ! k) = prefix @ format_d ((i # idxs) ! k) @ ''.pst''
             \<and> holds_row (parameter_data (snd (?arts ! k))) (columns par_en)
                 (realizations par_en ! ((i # idxs) ! k))
             \<and> (if shape0 (obsensemble mc) = num_reals mc
                 then holds_row (observation_data (snd (?arts ! k))) (columns (obsensemble mc))
                        (realizations (obsensemble mc) ! ((i # idxs) ! k))
                 else observation_data (snd (?arts ! k)) = observation_data (mc_pst mc))"
      using hp ho g by (cases k) simp_all
  qed
  ultimately show ?case by blast
qed

lemma back_transform_wf:
  "wf_ensemble en tbl \<Longrightarrow> wf_ensemble (back_transform inv_log en) tbl"
  by (auto simp: wf_ensemble_def back_transform_def)

lemma back_transform_row:
  "i < shape0 en \<Longrightarrow>
     realizations (back_transform inv_log en) ! i =
       map (\<lambda>(c, x). inv_log c x) (zip (columns en) (realizations en ! i))"
  by (simp add: back_transform_def shape0_def)

lemma digit_inj: "a < 10 \<Longrightarrow> b < 10 \<Longrightarrow> digit a = digit b \<Longrightarrow> a = b"
proof -
  assume a: "a < 10" and b: "b < 10" and e: "digit a = digit b"
  have d: "distinct ''0123456789''" by simp
  have "a < length ''0123456789''" "b < length ''0123456789''" using a b by simp_all
  with d e show "a = b" unfolding digit_def by (simp only: nth_eq_iff_index_eq)
qed

lemma format_d_nonempty: "format_d n \<noteq> []"
  by (subst format_d.simps) simp

lemma format_d_inj: "format_d n = format_d m \<Longrightarrow> n = m"
proof (induction n arbitrary: m rule: format_d.induct)
  case (1 n)
  show ?case
  proof (cases "n < 10")
    case n: True
    show ?thesis
    proof (cases "m < 10")
      case True
      have "[digit n] = [digit m]"
        using "1.prems" n True format_d.simps [of n] format_d.simps [of m] by simp
      then show ?thesis using digit_inj n True by simp
    next
      case False
      have "[digit n] = format_d (m div 10) @ [digit (m mod 10)]"
        using "1.prems" n False format_d.simps [of n] format_d.simps [of m] by simp
      then show ?thesis using format_d_nonempty [of "m div 10"] by simp
    qed
  next
    case n: False
    show ?thesis
    proof (cases "m < 10")
      case True
      have "format_d (n div 10) @ [digit (n mod 10)] = [digit m]"
        using "1.prems" n True format_d.simps [of n] format_d.simps [of m] by simp
      then show ?thesis using format_d_nonempty [of "n div 10"] by simp
    next
      case False
      have "format_d (n div 10) @ [digit (n mod 10)] = format_d (m div 10) @ [digit (m mod 10)]"
        using "1.prems" n False format_d.simps [of n] format_d.simps [of m] by simp
      then have q: "format_d (n div 10) = format_d (m div 10)"
        and r: "digit (n mod 10) = digit (m mod 10)" by simp_all
      have "n div 10 = m div 10" using "1.IH" [OF n q] .
      moreover have "n mod 10 = m mod 10" using digit_inj [OF _ _ r] by simp
      ultimately show ?thesis by (metis div_mult_mod_eq)
    qed
  qed
qed

lemma names_distinct:
  assumes "length files = n" and "\<forall>i<n. fst (files ! i) = prefix @ format_d i @ suffix"
  shows "distinct (map fst files)"
proof -
  have "map fst files ! i \<noteq> map fst files ! j"
    if "i < length (map fst files)" "j < length (map fst files)" "i \<noteq> j" for i j
  proof
    assume e: "map fst files ! i = map fst files ! j"
    have "i < n" "j < n" using that assms(1) by simp_all
    then have "prefix @ format_d i @ suffix = prefix @ format_d j @ suffix"
      using e assms by simp
    then have "format_d i = format_d j" by simp
    then show False using format_d_inj that(3) by blast
  qed
  then show ?thesis by (simp only: distinct_conv_nth) blast
qed

text \<open>
  C5. For an engine whose parameter ensemble fits the parameter table of the control file
  (and whose observation ensemble fits the observation table when it has as many
  realizations as the parameter ensemble), \<open>write_psts\<close> ends without an error and writes
  exactly \<open>num_reals\<close> files, the file \<open>i\<close> named \<open>prefix\<close>, the decimal digits of \<open>i\<close> and
  \<open>.pst\<close>, for \<open>i\<close> from 0 to \<open>num_reals - 1\<close>; the names differ from one another. In the file \<open>i\<close> the parameter table holds the
  row \<open>i\<close> of the parameter ensemble, after the inverse log transform when the ensemble is
  log-transformed; its observation table holds the row \<open>i\<close> of the observation ensemble
  when the two ensembles have the same number of realizations, and is the observation
  table of the engine's control file otherwise.
\<close>

theorem write_psts_realizations:
  fixes mc :: "'v monte_carlo"
  assumes "wf_ensemble (parensemble mc) (parameter_data (mc_pst mc))"
    and "shape0 (obsensemble mc) = num_reals mc \<longrightarrow>
           wf_ensemble (obsensemble mc) (observation_data (mc_pst mc))"
  shows "\<exists>files. write_psts inv_log mc prefix = (files, None)
     \<and> length files = num_reals mc
     \<and> distinct (map fst files)
     \<and> (\<forall>i<num_reals mc.
          fst (files ! i) = prefix @ format_d i @ ''.pst''
          \<and> holds_row (parameter_data (snd (files ! i))) (columns (parensemble mc))
              (if islog (parensemble mc)
               then map (\<lambda>(c, x). inv_log c x)
                      (zip (columns (parensemble mc)) (realizations (parensemble mc) ! i))
               else realizations (parensemble mc) ! i)
          \<and> (if shape0 (obsensemble mc) = num_reals mc
              then holds_row (observation_data (snd (files ! i))) (columns (obsensemble mc))
                     (realizations (obsensemble mc) ! i)
              else observation_data (snd (files ! i)) = observation_data (mc_pst mc)))"
proof -
  define par_en where
    "par_en = (if islog (parensemble mc) then back_transform inv_log (parensemble mc)
               else parensemble mc)"
  have wf: "wf_ensemble par_en (parameter_data (mc_pst mc))"
    using assms(1) by (simp add: par_en_def back_transform_wf)
  have shp: "shape0 par_en = num_reals mc"
    by (simp add: par_en_def num_reals_def shape0_def back_transform_def)
  have cols: "columns par_en = columns (parensemble mc)"
    by (simp add: par_en_def back_transform_def)
  have row: "realizations par_en ! i =
               (if islog (parensemble mc)
                then map (\<lambda>(c, x). inv_log c x)
                       (zip (columns (parensemble mc)) (realizations (parensemble mc) ! i))
                else realizations (parensemble mc) ! i)"
    if "i < num_reals mc" for i
    using that by (simp add: par_en_def back_transform_row num_reals_def)
  have "\<forall>i\<in>set [0..<num_reals mc]. i < num_reals mc" by simp
  from write_loop_ok [OF wf shp assms(2) this refl refl, of prefix "[]"]
  obtain arts where
    r: "write_loop mc par_en prefix [0..<num_reals mc] (mc_pst mc) [] = ([] @ arts, None)" and
    l: "length arts = length [0..<num_reals mc]" and
    g: "\<forall>k<length [0..<num_reals mc].
             fst (arts ! k) = prefix @ format_d ([0..<num_reals mc] ! k) @ ''.pst''
             \<and> holds_row (parameter_data (snd (arts ! k))) (columns par_en)
                 (realizations par_en ! ([0..<num_reals mc] ! k))
             \<and> (if shape0 (obsensemble mc) = num_reals mc
                 then holds_row (observation_data (snd (arts ! k))) (columns (obsensemble mc))
                        (realizations (obsensemble mc) ! ([0..<num_reals mc] ! k))
                 else observation_data (snd (arts ! k)) = observation_data (mc_pst mc))"
    by blast
  have "write_psts inv_log mc prefix = (arts, None)"
    using r by (simp add: write_psts_def par_en_def Let_def)
  moreover have len: "length arts = num_reals mc" using l by simp
  moreover have props: "\<forall>i<num_reals mc.
          fst (arts ! i) = prefix @ format_d i @ ''.pst''
          \<and> holds_row (parameter_data (snd (arts ! i))) (columns (parensemble mc))
              (if islog (parensemble mc)
               then map (\<lambda>(c, x). inv_log c x)
                      (zip (columns (parensemble mc)) (realizations (parensemble mc) ! i))
               else realizations (parensemble mc) ! i)
          \<and> (if shape0 (obsensemble mc) = num_reals mc
              then holds_row (observation_data (snd (arts ! i))) (columns (obsensemble mc))
                     (realizations (obsensemble mc) ! i)
              else observation_data (snd (arts ! i)) = observation_data (mc_pst mc))"
  proof (intro allI impI)
    fix i assume i: "i < num_reals mc"
    have lt: "i < length [0..<num_reals mc]" using i by simp
    have nth: "[0..<num_reals mc] ! i = i" using i by simp
    from g [rule_format, OF lt, unfolded nth cols row [OF i]]
    show "fst (arts ! i) = prefix @ format_d i @ ''.pst''
          \<and> holds_row (parameter_data (snd (arts ! i))) (columns (parensemble mc))
              (if islog (parensemble mc)
               then map (\<lambda>(c, x). inv_log c x)
                      (zip (columns (parensemble mc)) (realizations (parensemble mc) ! i))
               else realizations (parensemble mc) ! i)
          \<and> (if shape0 (obsensemble mc) = num_reals mc
              then holds_row (observation_data (snd (arts ! i))) (columns (obsensemble mc))
                     (realizations (obsensemble mc) ! i)
              else observation_data (snd (arts ! i)) = observation_data (mc_pst mc))"
      .
  qed
  moreover have "distinct (map fst arts)"
    using props by (intro names_distinct [OF len, of prefix "''.pst''"]) simp
  ultimately show ?thesis by blast
qed

theorem write_psts_realizations_witness:
  "wf_ensemble \<lparr>columns = [''k1'', ''k2''], realizations = [[1, 2], [0, 3 :: nat]], islog = True\<rparr>
       [(''k1'', 5), (''k2'', 7)]
   \<and> wf_ensemble \<lparr>columns = [''h1''], realizations = [[8], [9 :: nat]], islog = False\<rparr>
       [(''h1'', 3)]
   \<and> (\<exists>files.
        write_psts (\<lambda>c x. 10 ^ x)
          \<lparr>mc_pst = \<lparr>parameter_data = [(''k1'', 5), (''k2'', 7)],
                      observation_data = [(''h1'', 3)]\<rparr>,
           parensemble =
             \<lparr>columns = [''k1'', ''k2''], realizations = [[1, 2], [0, 3]], islog = True\<rparr>,
           obsensemble = \<lparr>columns = [''h1''], realizations = [[8], [9]], islog = False\<rparr>\<rparr>
          ''r'' = (files, None)
        \<and> length files = 2
        \<and> fst (files ! 0) = ''r0.pst'' \<and> fst (files ! 1) = ''r1.pst''
        \<and> map_of (parameter_data (snd (files ! 0))) ''k1'' = Some 10
        \<and> map_of (parameter_data (snd (files ! 1))) ''k2'' = Some 1000
        \<and> map_of (observation_data (snd (files ! 1))) ''h1'' = Some 9)"
proof -
  define mc :: "nat monte_carlo" where
    "mc = \<lparr>mc_pst = \<lparr>parameter_data = [(''k1'', 5), (''k2'', 7)],
                      observation_data = [(''h1'', 3)]\<rparr>,
           parensemble =
             \<lparr>columns = [''k1'', ''k2''], realizations = [[1, 2], [0, 3]], islog = True\<rparr>,
           obsensemble = \<lparr>columns = [''h1''], realizations = [[8], [9]], islog = False\<rparr>\<rparr>"
  have w1: "wf_ensemble \<lparr>columns = [''k1'', ''k2''], realizations = [[1, 2], [0, 3 :: nat]],
                         islog = True\<rparr> [(''k1'', 5), (''k2'', 7)]"
    by (simp add: wf_ensemble_def)
  have w2: "wf_ensemble \<lparr>columns = [''h1''], realizations = [[8], [9 :: nat]], islog = False\<rparr>
              [(''h1'', 3)]"
    by (simp add: wf_ensemble_def)
  have h1: "wf_ensemble (parensemble mc) (parameter_data (mc_pst mc))"
    using w1 by (simp add: mc_def)
  have h2': "wf_ensemble (obsensemble mc) (observation_data (mc_pst mc))"
    using w2 by (simp add: mc_def)
  then have h2: "shape0 (obsensemble mc) = num_reals mc \<longrightarrow>
                   wf_ensemble (obsensemble mc) (observation_data (mc_pst mc))"
    by simp
  have n: "num_reals mc = 2" "shape0 (obsensemble mc) = 2"
    by (simp_all add: mc_def num_reals_def shape0_def)
  from write_psts_realizations [OF h1 h2, of "\<lambda>c x. 10 ^ x" "''r''"]
  obtain files where
    r: "write_psts (\<lambda>c x. 10 ^ x) mc ''r'' = (files, None)" and
    l: "length files = num_reals mc" and
    d: "distinct (map fst files)" and
    g: "\<forall>i<num_reals mc.
          fst (files ! i) = ''r'' @ format_d i @ ''.pst''
          \<and> holds_row (parameter_data (snd (files ! i))) (columns (parensemble mc))
              (if islog (parensemble mc)
               then map (\<lambda>(c, x). 10 ^ x)
                      (zip (columns (parensemble mc)) (realizations (parensemble mc) ! i))
               else realizations (parensemble mc) ! i)
          \<and> (if shape0 (obsensemble mc) = num_reals mc
              then holds_row (observation_data (snd (files ! i))) (columns (obsensemble mc))
                     (realizations (obsensemble mc) ! i)
              else observation_data (snd (files ! i)) = observation_data (mc_pst mc))"
    by blast
  have f0: "format_d 0 = ''0''" and f1: "format_d (Suc 0) = ''1''"
    by (simp_all add: format_d.simps digit_def)
  have g0: "fst (files ! 0) = ''r0.pst''"
    "holds_row (parameter_data (snd (files ! 0))) [''k1'', ''k2''] [10, 100]"
    using g [rule_format, of 0] n by (simp_all add: mc_def f0)
  have g1: "fst (files ! 1) = ''r1.pst''"
    "holds_row (parameter_data (snd (files ! 1))) [''k1'', ''k2''] [1, 1000]"
    "holds_row (observation_data (snd (files ! 1))) [''h1''] [9]"
    using g [rule_format, of 1] n by (simp_all add: mc_def f1)
  have a: "map_of (parameter_data (snd (files ! 0))) ''k1'' = Some 10"
    using g0(2) [unfolded holds_row_def, rule_format, of 0] by simp
  have b: "map_of (parameter_data (snd (files ! 1))) ''k2'' = Some 1000"
    using g1(2) [unfolded holds_row_def, rule_format, of 1] by simp
  have c: "map_of (observation_data (snd (files ! 1))) ''h1'' = Some 9"
    using g1(3) [unfolded holds_row_def, rule_format, of 0] by simp
  have "\<exists>files. write_psts (\<lambda>c x. 10 ^ x) mc ''r'' = (files, None)
        \<and> length files = 2
        \<and> fst (files ! 0) = ''r0.pst'' \<and> fst (files ! 1) = ''r1.pst''
        \<and> map_of (parameter_data (snd (files ! 0))) ''k1'' = Some 10
        \<and> map_of (parameter_data (snd (files ! 1))) ''k2'' = Some 1000
        \<and> map_of (observation_data (snd (files ! 1))) ''h1'' = Some 9"
  proof (intro exI [of _ files] conjI)
    show "write_psts (\<lambda>c x. 10 ^ x) mc ''r'' = (files, None)" by (rule r)
    show "length files = 2" using l n by simp
    show "fst (files ! 0) = ''r0.pst''" by (rule g0(1))
    show "fst (files ! 1) = ''r1.pst''" by (rule g1(1))
    show "map_of (parameter_data (snd (files ! 0))) ''k1'' = Some 10" by (rule a)
    show "map_of (parameter_data (snd (files ! 1))) ''k2'' = Some 1000" by (rule b)
    show "map_of (observation_data (snd (files ! 1))) ''h1'' = Some 9" by (rule c)
  qed
  then show ?thesis using w1 w2 unfolding mc_def by (intro conjI)
qed

text \<open>
  C7, as stated, at an engine whose ensembles have no realization: \<open>write_psts\<close> ends
  without an error, and no file is written.
\<close>

theorem write_psts_empty_returns:
  "write_psts (\<lambda>c x. x)
     \<lparr>mc_pst = \<lparr>parameter_data = [(''k1'', 1 :: nat)], observation_data = [(''h1'', 2)]\<rparr>,
      parensemble = \<lparr>columns = [''k1''], realizations = [], islog = False\<rparr>,
      obsensemble = \<lparr>columns = [''h1''], realizations = [], islog = False\<rparr>\<rparr>
     ''r'' = ([], None)"
  by (simp add: write_psts_def num_reals_def shape0_def)

text \<open>
  C7, amended. On an engine in the empty state, where the parameter ensemble has no
  realization, \<open>write_psts\<close> raises no error and writes no file: the loop over
  \<open>range(self.num_reals)\<close> has no pass, and nothing before it tests the state.
\<close>

theorem write_psts_no_realizations:
  "num_reals mc = 0 \<Longrightarrow> write_psts inv_log mc prefix = ([], None)"
  by (simp add: write_psts_def)

theorem write_psts_no_realizations_witness:
  "num_reals
     \<lparr>mc_pst = \<lparr>parameter_data = [(''k1'', 1 :: nat), (''k2'', 4)], observation_data = []\<rparr>,
      parensemble = \<lparr>columns = [''k1'', ''k2''], realizations = [], islog = True\<rparr>,
      obsensemble = \<lparr>columns = [], realizations = [], islog = False\<rparr>\<rparr> = 0
   \<and> write_psts (\<lambda>c x. 10 ^ x)
     \<lparr>mc_pst = \<lparr>parameter_data = [(''k1'', 1 :: nat), (''k2'', 4)], observation_data = []\<rparr>,
      parensemble = \<lparr>columns = [''k1'', ''k2''], realizations = [], islog = True\<rparr>,
      obsensemble = \<lparr>columns = [], realizations = [], islog = False\<rparr>\<rparr>
     ''real_'' = ([], None)"
proof -
  define mc :: "nat monte_carlo" where
    "mc = \<lparr>mc_pst = \<lparr>parameter_data = [(''k1'', 1), (''k2'', 4)], observation_data = []\<rparr>,
      parensemble = \<lparr>columns = [''k1'', ''k2''], realizations = [], islog = True\<rparr>,
      obsensemble = \<lparr>columns = [], realizations = [], islog = False\<rparr>\<rparr>"
  have h: "num_reals mc = 0" by (simp add: mc_def num_reals_def shape0_def)
  from h write_psts_no_realizations [OF h, of "\<lambda>c x. 10 ^ x" "''real_''"]
  show ?thesis unfolding mc_def by (intro conjI)
qed

end
